theory Spec2Isabelle
  imports Main
begin

section \<open>The backing store: \<open>std::vector<node_t>\<close>\<close>

text \<open>
  \<open>stack_pool.hpp\<close> keeps all nodes of all stacks in one \<open>std::vector<node_t>\<close> and names
  a node by its position plus one; the handle \<open>0\<close> is \<open>end()\<close>. The handle type \<open>N\<close> is
  \<open>std::size_t\<close> by default, the type of \<open>pool.size()\<close>; handles are natural numbers
  here. The only place where the unsigned arithmetic of the source wraps is \<open>pool[x - 1]\<close>
  at \<open>x = 0\<close>, which is written out in \<open>node\<close> below.

  Reading or writing a vector element past \<open>size()\<close> is undefined behaviour in C++; the
  model makes it the error value \<open>OutOfBounds\<close>. Following a pool pointer that refers to
  no pool is \<open>DanglingPool\<close>. Exhaustion of storage (\<open>std::bad_alloc\<close>,
  \<open>std::length_error\<close>) is outside the model: vectors are unbounded.
\<close>

datatype error = OutOfBounds | DanglingPool

record 'a node_t =
  node_value :: 'a
  node_next :: nat

text \<open>A vector is its elements and its capacity.\<close>

record 'e vector =
  elems :: "'e list"
  cap :: nat

definition vector_empty :: "'e vector" where
  "vector_empty = \<lparr>elems = [], cap = 0\<rparr>"

definition vector_size :: "'e vector \<Rightarrow> nat" where
  "vector_size v = length (elems v)"

definition vector_capacity :: "'e vector \<Rightarrow> nat" where
  "vector_capacity v = cap v"

text \<open>\<open>reserve(n)\<close> reallocates only when \<open>n\<close> exceeds the capacity.\<close>

definition vector_reserve :: "nat \<Rightarrow> 'e vector \<Rightarrow> 'e vector" where
  "vector_reserve n v = (if cap v < n then v\<lparr>cap := n\<rparr> else v)"

text \<open>
  \<open>push_back\<close> appends in place while there is room and otherwise reallocates to
  \<open>size + max size 1\<close> elements (the doubling of libstdc++).
\<close>

definition vector_push_back :: "'e \<Rightarrow> 'e vector \<Rightarrow> 'e vector" where
  "vector_push_back x v =
     (if length (elems v) < cap v then v\<lparr>elems := elems v @ [x]\<rparr>
      else \<lparr>elems = elems v @ [x], cap = length (elems v) + max (length (elems v)) 1\<rparr>)"

definition vector_at :: "'e vector \<Rightarrow> nat \<Rightarrow> error + 'e" where
  "vector_at v i = (if i < length (elems v) then Inr (elems v ! i) else Inl OutOfBounds)"

definition vector_set :: "'e vector \<Rightarrow> nat \<Rightarrow> 'e \<Rightarrow> error + 'e vector" where
  "vector_set v i x =
     (if i < length (elems v) then Inr (v\<lparr>elems := (elems v)[i := x]\<rparr>) else Inl OutOfBounds)"

section \<open>The pool\<close>

text \<open>
  Member functions take the pool and return it when they change it. Names of the source
  that are keywords here are renamed: \<open>end()\<close> is \<open>end_stack\<close>, \<open>empty\<close> is
  \<open>empty_stack\<close>, \<open>value\<close> and \<open>next\<close> are \<open>value_of\<close> and \<open>next_of\<close> (with
  \<open>set_value\<close> and \<open>set_next\<close> for assignments through the returned reference), and
  \<open>_push\<close> is \<open>push_impl\<close>.
\<close>

record 'a stack_pool =
  pool :: "'a node_t vector"
  free_nodes :: nat

text \<open>\<open>end()\<close>: the handle \<open>stack_type(0)\<close>.\<close>

definition end_stack :: nat where
  "end_stack = 0"

text \<open>The constructor \<open>stack_pool()\<close>.\<close>

definition new_pool :: "'a stack_pool" where
  "new_pool = \<lparr>pool = vector_empty, free_nodes = end_stack\<rparr>"

text \<open>
  \<open>node(x)\<close> is \<open>pool[x - 1]\<close>. For \<open>x = 0\<close> the index is \<open>SIZE_MAX\<close>, beyond the
  size of every vector.
\<close>

definition node :: "nat \<Rightarrow> 'a stack_pool \<Rightarrow> error + 'a node_t" where
  "node x p = (if x = 0 then Inl OutOfBounds else vector_at (pool p) (x - 1))"

text \<open>Reading through the references \<open>value(x)\<close> and \<open>next(x)\<close>.\<close>

definition value_of :: "nat \<Rightarrow> 'a stack_pool \<Rightarrow> error + 'a" where
  "value_of x p = (case node x p of Inl e \<Rightarrow> Inl e | Inr n \<Rightarrow> Inr (node_value n))"

definition next_of :: "nat \<Rightarrow> 'a stack_pool \<Rightarrow> error + nat" where
  "next_of x p = (case node x p of Inl e \<Rightarrow> Inl e | Inr n \<Rightarrow> Inr (node_next n))"

text \<open>Writing through them: \<open>value(x) = v\<close> and \<open>next(x) = h\<close>.\<close>

definition set_value :: "nat \<Rightarrow> 'a \<Rightarrow> 'a stack_pool \<Rightarrow> error + 'a stack_pool" where
  "set_value x v p =
     (case node x p of Inl e \<Rightarrow> Inl e
      | Inr n \<Rightarrow>
          (case vector_set (pool p) (x - 1) (n\<lparr>node_value := v\<rparr>) of Inl e \<Rightarrow> Inl e
           | Inr w \<Rightarrow> Inr (p\<lparr>pool := w\<rparr>)))"

definition set_next :: "nat \<Rightarrow> nat \<Rightarrow> 'a stack_pool \<Rightarrow> error + 'a stack_pool" where
  "set_next x h p =
     (case node x p of Inl e \<Rightarrow> Inl e
      | Inr n \<Rightarrow>
          (case vector_set (pool p) (x - 1) (n\<lparr>node_next := h\<rparr>) of Inl e \<Rightarrow> Inl e
           | Inr w \<Rightarrow> Inr (p\<lparr>pool := w\<rparr>)))"

text \<open>
  \<open>_push\<close>. The fresh node is \<open>node_t()\<close>, whose value is \<open>T()\<close>: the payload type is
  default-constructible.
\<close>

definition push_impl :: "'a::default \<Rightarrow> nat \<Rightarrow> 'a stack_pool \<Rightarrow> error + nat \<times> 'a stack_pool" where
  "push_impl val head p =
     (let p1 = (if free_nodes p = end_stack
                then (let n = \<lparr>node_value = default, node_next = end_stack\<rparr>;
                          p0 = p\<lparr>pool := vector_push_back n (pool p)\<rparr>
                      in p0\<lparr>free_nodes := vector_size (pool p0)\<rparr>)
                else p);
          new_head = free_nodes p1
      in case next_of new_head p1 of Inl e \<Rightarrow> Inl e
         | Inr nx \<Rightarrow>
             (case set_next new_head head (p1\<lparr>free_nodes := nx\<rparr>) of Inl e \<Rightarrow> Inl e
              | Inr p2 \<Rightarrow>
                  (case set_value new_head val p2 of Inl e \<Rightarrow> Inl e
                   | Inr p3 \<Rightarrow> Inr (new_head, p3))))"

definition push :: "'a::default \<Rightarrow> nat \<Rightarrow> 'a stack_pool \<Rightarrow> error + nat \<times> 'a stack_pool" where
  "push val head p = push_impl val head p"

definition new_stack :: "'a stack_pool \<Rightarrow> nat" where
  "new_stack p = end_stack"

definition reserve :: "nat \<Rightarrow> 'a stack_pool \<Rightarrow> 'a stack_pool" where
  "reserve n p = p\<lparr>pool := vector_reserve n (pool p)\<rparr>"

text \<open>The constructor \<open>stack_pool(n)\<close>.\<close>

definition new_pool_reserved :: "nat \<Rightarrow> 'a stack_pool" where
  "new_pool_reserved n = reserve n new_pool"

definition capacity :: "'a stack_pool \<Rightarrow> nat" where
  "capacity p = vector_capacity (pool p)"

definition empty_stack :: "nat \<Rightarrow> bool" where
  "empty_stack x = (x = end_stack)"

definition pop :: "nat \<Rightarrow> 'a stack_pool \<Rightarrow> error + nat \<times> 'a stack_pool" where
  "pop head p =
     (case next_of head p of Inl e \<Rightarrow> Inl e
      | Inr new_stack_head \<Rightarrow>
          (case set_next head (free_nodes p) p of Inl e \<Rightarrow> Inl e
           | Inr p1 \<Rightarrow> Inr (new_stack_head, p1\<lparr>free_nodes := head\<rparr>)))"

section \<open>The cursor \<open>_iterator\<close>\<close>

text \<open>
  A cursor holds a handle and a pointer to a pool. The pointer is a reference of type
  \<open>'r\<close>, resolved through a store of the pools that exist.
\<close>

record 'r iterator =
  it_head :: nat
  it_pool :: 'r

type_synonym ('r, 'a) pools = "'r \<Rightarrow> 'a stack_pool option"

text \<open>The constructor \<open>_iterator(pool, x)\<close>.\<close>

definition make_iterator :: "'r \<Rightarrow> nat \<Rightarrow> 'r iterator" where
  "make_iterator r x = \<lparr>it_head = x, it_pool = r\<rparr>"

text \<open>\<open>operator=\<close> assigns the handle only.\<close>

definition it_assign :: "'r iterator \<Rightarrow> 'r iterator \<Rightarrow> 'r iterator" where
  "it_assign this a = this\<lparr>it_head := it_head a\<rparr>"

text \<open>\<open>operator*\<close>.\<close>

definition it_deref :: "('r, 'a) pools \<Rightarrow> 'r iterator \<Rightarrow> error + 'a" where
  "it_deref st this =
     (case st (it_pool this) of None \<Rightarrow> Inl DanglingPool
      | Some p \<Rightarrow> value_of (it_head this) p)"

text \<open>\<open>operator&\<close> and \<open>ptr_to_stack\<close>.\<close>

definition it_addr :: "'r iterator \<Rightarrow> nat" where
  "it_addr this = it_head this"

definition ptr_to_stack :: "'r iterator \<Rightarrow> nat" where
  "ptr_to_stack this = it_head this"

text \<open>Pre-increment and post-increment; the latter returns the copy and the advanced cursor.\<close>

definition it_incr :: "('r, 'a) pools \<Rightarrow> 'r iterator \<Rightarrow> error + 'r iterator" where
  "it_incr st this =
     (case st (it_pool this) of None \<Rightarrow> Inl DanglingPool
      | Some p \<Rightarrow>
          (case next_of (it_head this) p of Inl e \<Rightarrow> Inl e
           | Inr h \<Rightarrow> Inr (this\<lparr>it_head := h\<rparr>)))"

definition it_post_incr :: "('r, 'a) pools \<Rightarrow> 'r iterator \<Rightarrow> error + 'r iterator \<times> 'r iterator" where
  "it_post_incr st this =
     (let tmp = this
      in case it_incr st this of Inl e \<Rightarrow> Inl e | Inr this' \<Rightarrow> Inr (tmp, this'))"

definition it_eq :: "'r iterator \<Rightarrow> 'r iterator \<Rightarrow> bool" where
  "it_eq a b = (it_head a = it_head b)"

definition it_neq :: "'r iterator \<Rightarrow> 'r iterator \<Rightarrow> bool" where
  "it_neq a b = (\<not> it_eq a b)"

text \<open>\<open>begin(x)\<close> and \<open>end(x)\<close> of the pool at reference \<open>r\<close>.\<close>

definition begin_it :: "'r \<Rightarrow> nat \<Rightarrow> 'r iterator" where
  "begin_it r x = make_iterator r x"

definition end_it :: "'r \<Rightarrow> nat \<Rightarrow> 'r iterator" where
  "end_it r x = make_iterator r end_stack"

section \<open>\<open>free_stack\<close>\<close>

text \<open>
  The loop \<open>while(next_node != end(head)) current_node = next_node++\<close>. It need not
  terminate (a chain may run into a cycle), so its result is an option: \<open>None\<close> is a
  loop that runs forever.
\<close>

partial_function (option) free_stack_loop ::
  "('r, 'a) pools \<Rightarrow> 'r \<Rightarrow> nat \<Rightarrow> 'r iterator \<Rightarrow> 'r iterator \<Rightarrow> (error + 'r iterator) option" where
  "free_stack_loop st r head current_node next_node =
     (if it_neq next_node (end_it r head)
      then (case it_post_incr st next_node of Inl e \<Rightarrow> Some (Inl e)
            | Inr (tmp, next_node') \<Rightarrow>
                free_stack_loop st r head (it_assign current_node tmp) next_node')
      else Some (Inr current_node))"

declare free_stack_loop.simps [code]

text \<open>
  Inside the member function every cursor is bound to \<open>*this\<close>, which the loop does not
  modify: the reference is \<open>()\<close> and the store maps it to the pool itself.
\<close>

definition free_stack :: "nat \<Rightarrow> 'a stack_pool \<Rightarrow> (error + nat \<times> 'a stack_pool) option" where
  "free_stack head p =
     (if empty_stack head then Some (Inr (head, p))
      else
        (let st = (\<lambda>_::unit. Some p);
             current_node = begin_it () head;
             next_node = current_node
         in case it_incr st next_node of Inl e \<Rightarrow> Some (Inl e)
            | Inr next_node1 \<Rightarrow>
                (case free_stack_loop st () head current_node next_node1 of None \<Rightarrow> None
                 | Some (Inl e) \<Rightarrow> Some (Inl e)
                 | Some (Inr current_node1) \<Rightarrow>
                     (case set_next (ptr_to_stack current_node1) (free_nodes p) p of
                        Inl e \<Rightarrow> Some (Inl e)
                      | Inr p1 \<Rightarrow> Some (Inr (end_stack, p1\<lparr>free_nodes := head\<rparr>))))))"

section \<open>Clients of the pool\<close>

text \<open>The payload type of the examples: \<open>int\<close>, whose \<open>T()\<close> is \<open>0\<close>.\<close>

instantiation int :: default
begin

definition default_int :: int where
  "default_int = 0"

instance ..

end

text \<open>
  Example pools. \<open>ex_stack\<close> is the fresh pool after \<open>push(10)\<close>, \<open>push(20)\<close>,
  \<open>push(30)\<close> on one stack, whose head is then \<open>3\<close>; \<open>ex_popped\<close> is that pool after
  \<open>pop(3)\<close>, and \<open>ex_freed\<close> after \<open>free_stack(2)\<close> on top of that; \<open>ex_cyclic\<close> is
  \<open>ex_stack\<close> after the assignment \<open>next(1) = 3\<close>, which closes the stack into a cycle;
  \<open>ex_other\<close> is a second pool, with a stack of two nodes.
\<close>

definition ex_stack :: "int stack_pool" where
  "ex_stack =
     \<lparr>pool = \<lparr>elems = [\<lparr>node_value = 10, node_next = 0\<rparr>,
                       \<lparr>node_value = 20, node_next = 1\<rparr>,
                       \<lparr>node_value = 30, node_next = 2\<rparr>], cap = 4\<rparr>,
      free_nodes = 0\<rparr>"

definition ex_popped :: "int stack_pool" where
  "ex_popped =
     \<lparr>pool = \<lparr>elems = [\<lparr>node_value = 10, node_next = 0\<rparr>,
                       \<lparr>node_value = 20, node_next = 1\<rparr>,
                       \<lparr>node_value = 30, node_next = 0\<rparr>], cap = 4\<rparr>,
      free_nodes = 3\<rparr>"

definition ex_freed :: "int stack_pool" where
  "ex_freed =
     \<lparr>pool = \<lparr>elems = [\<lparr>node_value = 10, node_next = 3\<rparr>,
                       \<lparr>node_value = 20, node_next = 1\<rparr>,
                       \<lparr>node_value = 30, node_next = 0\<rparr>], cap = 4\<rparr>,
      free_nodes = 2\<rparr>"

definition ex_cyclic :: "int stack_pool" where
  "ex_cyclic =
     \<lparr>pool = \<lparr>elems = [\<lparr>node_value = 10, node_next = 3\<rparr>,
                       \<lparr>node_value = 20, node_next = 1\<rparr>,
                       \<lparr>node_value = 30, node_next = 2\<rparr>], cap = 4\<rparr>,
      free_nodes = 0\<rparr>"

definition ex_other :: "int stack_pool" where
  "ex_other =
     \<lparr>pool = \<lparr>elems = [\<lparr>node_value = 7, node_next = 0\<rparr>,
                       \<lparr>node_value = 8, node_next = 1\<rparr>], cap = 2\<rparr>,
      free_nodes = 0\<rparr>"

text \<open>
  A sequence of \<open>push\<close> calls on one stack: each call receives the head that the call
  before it returned.
\<close>

fun push_all :: "'a::default list \<Rightarrow> nat \<Rightarrow> 'a stack_pool \<Rightarrow> error + nat \<times> 'a stack_pool" where
  "push_all [] head p = Inr (head, p)"
| "push_all (v # vs) head p =
     (case push v head p of Inl e \<Rightarrow> Inl e | Inr (head', p') \<Rightarrow> push_all vs head' p')"

text \<open>
  A sequence of \<open>push\<close> calls with arbitrary arguments (value and head of each call),
  returning the handles in the order in which the calls returned them.
\<close>

fun pushes :: "('a::default \<times> nat) list \<Rightarrow> 'a stack_pool \<Rightarrow> error + nat list \<times> 'a stack_pool" where
  "pushes [] p = Inr ([], p)"
| "pushes ((v, head) # as) p =
     (case push v head p of Inl e \<Rightarrow> Inl e
      | Inr (h, p') \<Rightarrow>
          (case pushes as p' of Inl e \<Rightarrow> Inl e | Inr (hs, p'') \<Rightarrow> Inr (h # hs, p'')))"




text \<open>
  The operations of the pool as commands, and a run of a command list: the pool after each
  command, up to the first command that does not return normally.
\<close>

datatype 'a op = New_stack | Reserve nat | Push 'a nat | Pop nat | Free_stack nat

fun exec_op :: "'a::default op \<Rightarrow> 'a stack_pool \<Rightarrow> (error + 'a stack_pool) option" where
  "exec_op New_stack p = Some (Inr p)"
| "exec_op (Reserve n) p = Some (Inr (reserve n p))"
| "exec_op (Push v head) p =
     (case push v head p of Inl e \<Rightarrow> Some (Inl e) | Inr (h, p') \<Rightarrow> Some (Inr p'))"
| "exec_op (Pop head) p =
     (case pop head p of Inl e \<Rightarrow> Some (Inl e) | Inr (h, p') \<Rightarrow> Some (Inr p'))"
| "exec_op (Free_stack head) p =
     (case free_stack head p of None \<Rightarrow> None | Some (Inl e) \<Rightarrow> Some (Inl e)
      | Some (Inr (h, p')) \<Rightarrow> Some (Inr p'))"

fun run :: "'a::default op list \<Rightarrow> 'a stack_pool \<Rightarrow> 'a stack_pool list" where
  "run [] p = []"
| "run (c # cs) p =
     (case exec_op c p of Some (Inr p') \<Rightarrow> p' # run cs p' | _ \<Rightarrow> [])"

section \<open>Chains\<close>

text \<open>
  \<open>path ns h xs t\<close>: following \<open>next\<close> from the handle \<open>h\<close> visits exactly the nodes
  \<open>xs\<close>, all of them inside the store \<open>ns\<close>, and then arrives at \<open>t\<close>. A chain is a path
  to the sentinel.
\<close>

fun path :: "'a node_t list \<Rightarrow> nat \<Rightarrow> nat list \<Rightarrow> nat \<Rightarrow> bool" where
  "path ns h [] t = (h = t)"
| "path ns h (x # xs) t =
     (h = x \<and> x \<noteq> 0 \<and> x \<le> length ns \<and> path ns (node_next (ns ! (x - 1))) xs t)"

definition chain :: "'a stack_pool \<Rightarrow> nat \<Rightarrow> nat list \<Rightarrow> bool" where
  "chain p h xs = path (elems (pool p)) h xs end_stack"


section \<open>Paths and chains\<close>

lemma path_in_range: "path ns h xs t \<Longrightarrow> x \<in> set xs \<Longrightarrow> x \<noteq> 0 \<and> x \<le> length ns"
  by (induction xs arbitrary: h) auto

lemma path_update_other:
  "path ns h xs t \<Longrightarrow> y \<notin> set xs \<Longrightarrow> y \<noteq> 0 \<Longrightarrow> path (ns[y - 1 := n]) h xs t"
proof (induction xs arbitrary: h)
  case Nil
  then show ?case by simp
next
  case (Cons x xs)
  then have "x - 1 \<noteq> y - 1" by auto
  with Cons show ?case by auto
qed


lemma path_append:
  "path ns h (xs @ ys) t = (\<exists>m. path ns h xs m \<and> path ns m ys t)"
  by (induction xs arbitrary: h) auto

lemma path_suffix:
  "path ns h (xs @ y # ys) t \<Longrightarrow> path ns y (y # ys) t"
  by (induction xs arbitrary: h) auto

lemma path_unique:
  "path ns h xs 0 \<Longrightarrow> path ns h ys 0 \<Longrightarrow> xs = ys"
proof (induction xs arbitrary: h ys)
  case Nil
  then show ?case by (cases ys) auto
next
  case (Cons x xs)
  then show ?case by (cases ys) auto
qed

lemma path_distinct:
  "path ns h xs 0 \<Longrightarrow> distinct xs"
proof (induction xs arbitrary: h)
  case Nil
  then show ?case by simp
next
  case (Cons x xs)
  have "x \<notin> set xs"
  proof
    assume "x \<in> set xs"
    then obtain as bs where xs: "xs = as @ x # bs" by (auto dest: split_list)
    from Cons.prems have "path ns (node_next (ns ! (x - 1))) (as @ x # bs) 0"
      by (simp add: xs)
    then have "path ns x (x # bs) 0" by (rule path_suffix)
    moreover from Cons.prems have "path ns x (x # xs) 0" by simp
    ultimately have "x # bs = x # xs" by (rule path_unique)
    then show False by (simp add: xs)
  qed
  moreover from Cons have "distinct xs" by auto
  ultimately show ?case by simp
qed

lemma path_retarget_last:
  assumes "path ns h xs 0" and "xs \<noteq> []"
  shows "path (ns[last xs - 1 := (ns ! (last xs - 1))\<lparr>node_next := t\<rparr>]) h xs t"
proof -
  from assms(2) obtain ys l where xs: "xs = ys @ [l]" by (cases xs rule: rev_cases) auto
  from assms(1) have "distinct xs" by (rule path_distinct)
  then have nl: "l \<notin> set ys" by (simp add: xs)
  from assms(1) have pre: "path ns h ys l" and l: "l \<noteq> 0" "l \<le> length ns"
    by (auto simp: xs path_append)
  have "path (ns[l - 1 := (ns ! (l - 1))\<lparr>node_next := t\<rparr>]) h ys l"
    using pre nl l(1) by (rule path_update_other)
  moreover have "path (ns[l - 1 := (ns ! (l - 1))\<lparr>node_next := t\<rparr>]) l [l] t"
    using l by simp
  ultimately show ?thesis unfolding xs path_append by auto
qed

lemma chain_distinct: "chain p h xs \<Longrightarrow> distinct xs"
  by (auto simp: chain_def end_stack_def dest: path_distinct)

lemma chain_in_range:
  "chain p h xs \<Longrightarrow> x \<in> set xs \<Longrightarrow> x \<noteq> 0 \<and> x \<le> length (elems (pool p))"
  unfolding chain_def by (rule path_in_range)



section \<open>The accessors and single operations\<close>

lemma node_ok:
  "x \<noteq> 0 \<Longrightarrow> x \<le> length (elems (pool p)) \<Longrightarrow> node x p = Inr (elems (pool p) ! (x - 1))"
  by (auto simp: node_def vector_at_def)

lemma node_bad:
  "x = 0 \<or> length (elems (pool p)) < x \<Longrightarrow> node x p = Inl OutOfBounds"
  by (auto simp: node_def vector_at_def)

lemma node_update_other:
  "x \<noteq> Suc i \<Longrightarrow>
   node x (p\<lparr>pool := (pool p)\<lparr>elems := (elems (pool p))[i := n]\<rparr>, free_nodes := f\<rparr>) = node x p"
  by (auto simp: node_def vector_at_def)

lemma next_of_ok:
  "x \<noteq> 0 \<Longrightarrow> x \<le> length (elems (pool p)) \<Longrightarrow>
   next_of x p = Inr (node_next (elems (pool p) ! (x - 1)))"
  by (simp add: next_of_def node_ok)

lemma next_of_InrD:
  "next_of x p = Inr s \<Longrightarrow>
   x \<noteq> 0 \<and> x \<le> length (elems (pool p)) \<and> s = node_next (elems (pool p) ! (x - 1))"
  by (cases "x = 0 \<or> length (elems (pool p)) < x")
    (auto simp: next_of_def node_bad node_ok)

lemma value_of_ok:
  "x \<noteq> 0 \<Longrightarrow> x \<le> length (elems (pool p)) \<Longrightarrow>
   value_of x p = Inr (node_value (elems (pool p) ! (x - 1)))"
  by (simp add: value_of_def node_ok)

lemma set_next_ok:
  "x \<noteq> 0 \<Longrightarrow> x \<le> length (elems (pool p)) \<Longrightarrow>
   set_next x h p =
     Inr (p\<lparr>pool := (pool p)\<lparr>elems := (elems (pool p))
            [x - 1 := (elems (pool p) ! (x - 1))\<lparr>node_next := h\<rparr>]\<rparr>\<rparr>)"
  by (auto simp: set_next_def node_ok vector_set_def)

lemma set_value_ok:
  "x \<noteq> 0 \<Longrightarrow> x \<le> length (elems (pool p)) \<Longrightarrow>
   set_value x v p =
     Inr (p\<lparr>pool := (pool p)\<lparr>elems := (elems (pool p))
            [x - 1 := (elems (pool p) ! (x - 1))\<lparr>node_value := v\<rparr>]\<rparr>\<rparr>)"
  by (auto simp: set_value_def node_ok vector_set_def)

lemma set_next_capacity:
  "set_next x h p = Inr p1 \<Longrightarrow> capacity p1 = capacity p"
  by (auto simp: set_next_def vector_set_def capacity_def vector_capacity_def
      split: sum.splits if_splits)

lemma node_overwrite:
  "(n::'a node_t)\<lparr>node_next := h, node_value := v\<rparr> = \<lparr>node_value = v, node_next = h\<rparr>"
  by (cases n) simp

lemma push_reuse:
  assumes "free_nodes p \<noteq> 0" and "free_nodes p \<le> length (elems (pool p))"
  shows "push v h p =
     Inr (free_nodes p,
          p\<lparr>pool := (pool p)\<lparr>elems := (elems (pool p))
               [free_nodes p - 1 := \<lparr>node_value = v, node_next = h\<rparr>]\<rparr>,
            free_nodes := node_next (elems (pool p) ! (free_nodes p - 1))\<rparr>)"
  using assms
  by (simp add: push_def push_impl_def end_stack_def next_of_ok set_next_ok set_value_ok
      Let_def node_overwrite)

lemma push_fresh:
  assumes "free_nodes p = 0"
  shows "push v h p =
     Inr (Suc (length (elems (pool p))),
          p\<lparr>pool := vector_push_back \<lparr>node_value = v, node_next = h\<rparr> (pool p),
            free_nodes := end_stack\<rparr>)"
  using assms
  by (simp add: push_def push_impl_def end_stack_def next_of_ok set_next_ok set_value_ok
      vector_size_def vector_push_back_def Let_def)

lemma push_bad:
  assumes "free_nodes p \<noteq> 0" and "length (elems (pool p)) < free_nodes p"
  shows "push v h p = Inl OutOfBounds"
  using assms
  by (simp add: push_def push_impl_def end_stack_def next_of_def node_bad)

lemma push_capacity:
  assumes "push v h p = Inr (r, p')"
  shows "capacity p \<le> capacity p'"
proof (cases "free_nodes p = 0")
  case True
  with assms show ?thesis
    by (auto simp: push_fresh capacity_def vector_capacity_def vector_push_back_def)
next
  case False
  show ?thesis
  proof (cases "free_nodes p \<le> length (elems (pool p))")
    case True
    with False assms show ?thesis
      by (auto simp: push_reuse capacity_def vector_capacity_def)
  next
    case False
    with \<open>free_nodes p \<noteq> 0\<close> assms show ?thesis by (simp add: push_bad)
  qed
qed

lemma pop_ok:
  assumes "head \<noteq> 0" and "head \<le> length (elems (pool p))"
  shows "pop head p =
     Inr (node_next (elems (pool p) ! (head - 1)),
          p\<lparr>pool := (pool p)\<lparr>elems := (elems (pool p))
               [head - 1 := (elems (pool p) ! (head - 1))\<lparr>node_next := free_nodes p\<rparr>]\<rparr>,
            free_nodes := head\<rparr>)"
  using assms by (simp add: pop_def next_of_ok set_next_ok)

lemma pop_bad:
  "head = 0 \<or> length (elems (pool p)) < head \<Longrightarrow> pop head p = Inl OutOfBounds"
  by (simp add: pop_def next_of_def node_bad)

lemma pop_InrD:
  "pop head p = Inr (s, p1) \<Longrightarrow>
   head \<noteq> 0 \<and> head \<le> length (elems (pool p)) \<and>
   p1 = p\<lparr>pool := (pool p)\<lparr>elems := (elems (pool p))
               [head - 1 := (elems (pool p) ! (head - 1))\<lparr>node_next := free_nodes p\<rparr>]\<rparr>,
            free_nodes := head\<rparr>"
  by (cases "head = 0 \<or> length (elems (pool p)) < head") (auto simp: pop_bad pop_ok)

lemma pop_capacity:
  "pop head p = Inr (s, p') \<Longrightarrow> capacity p' = capacity p"
  by (auto dest!: pop_InrD simp: capacity_def vector_capacity_def)

lemma push_reuse_effect:
  assumes f: "free_nodes p \<noteq> 0" "free_nodes p \<le> length (elems (pool p))"
  shows "\<exists>p'. push v h p = Inr (free_nodes p, p') \<and>
           next_of (free_nodes p) p = Inr (free_nodes p') \<and>
           value_of (free_nodes p) p' = Inr v \<and> next_of (free_nodes p) p' = Inr h \<and>
           (\<forall>x. x \<noteq> free_nodes p \<longrightarrow> node x p' = node x p) \<and>
           vector_size (pool p') = vector_size (pool p) \<and> capacity p' = capacity p"
proof -
  let ?ns = "elems (pool p)"
  let ?p' = "p\<lparr>pool := (pool p)\<lparr>elems := ?ns
               [free_nodes p - 1 := \<lparr>node_value = v, node_next = h\<rparr>]\<rparr>,
            free_nodes := node_next (?ns ! (free_nodes p - 1))\<rparr>"
  have "push v h p = Inr (free_nodes p, ?p')" using f by (rule push_reuse)
  moreover have "next_of (free_nodes p) p = Inr (free_nodes ?p')"
    using f by (simp add: next_of_ok)
  moreover have "value_of (free_nodes p) ?p' = Inr v" "next_of (free_nodes p) ?p' = Inr h"
    using f by (simp_all add: value_of_ok next_of_ok)
  moreover have "\<forall>x. x \<noteq> free_nodes p \<longrightarrow> node x ?p' = node x p"
    using f by (simp add: node_update_other)
  moreover have "vector_size (pool ?p') = vector_size (pool p)" "capacity ?p' = capacity p"
    by (simp_all add: vector_size_def capacity_def vector_capacity_def)
  ultimately show ?thesis by (intro exI [of _ ?p']) simp
qed

lemma push_fresh_effect:
  assumes f: "free_nodes p = 0"
  shows "\<exists>p'. push v h p = Inr (vector_size (pool p) + 1, p') \<and>
           free_nodes p' = end_stack \<and>
           value_of (vector_size (pool p) + 1) p' = Inr v \<and>
           next_of (vector_size (pool p) + 1) p' = Inr h \<and>
           (\<forall>x. x \<noteq> vector_size (pool p) + 1 \<longrightarrow> node x p' = node x p) \<and>
           vector_size (pool p') = vector_size (pool p) + 1 \<and>
           capacity p \<le> capacity p' \<and>
           (vector_size (pool p) < capacity p \<longrightarrow> capacity p' = capacity p)"
proof -
  let ?ns = "elems (pool p)"
  let ?p' = "p\<lparr>pool := vector_push_back \<lparr>node_value = v, node_next = h\<rparr> (pool p),
            free_nodes := end_stack\<rparr>"
  have e: "elems (vector_push_back \<lparr>node_value = v, node_next = h\<rparr> (pool p))
      = ?ns @ [\<lparr>node_value = v, node_next = h\<rparr>]"
    by (simp add: vector_push_back_def)
  have "push v h p = Inr (vector_size (pool p) + 1, ?p')"
    using f by (simp add: push_fresh vector_size_def)
  moreover have "value_of (vector_size (pool p) + 1) ?p' = Inr v"
    "next_of (vector_size (pool p) + 1) ?p' = Inr h"
    by (simp_all add: value_of_def next_of_def node_def vector_at_def e vector_size_def)
  moreover have "\<forall>x. x \<noteq> vector_size (pool p) + 1 \<longrightarrow> node x ?p' = node x p"
    by (auto simp: node_def vector_at_def e vector_size_def nth_append)
  moreover have "vector_size (pool ?p') = vector_size (pool p) + 1"
    by (simp add: vector_size_def e)
  moreover have "capacity p \<le> capacity ?p'"
    "vector_size (pool p) < capacity p \<longrightarrow> capacity ?p' = capacity p"
    by (simp_all add: capacity_def vector_capacity_def vector_push_back_def vector_size_def)
  ultimately show ?thesis by (intro exI [of _ ?p']) simp
qed

lemma pop_push_effect:
  assumes "pop head p = Inr (s, p1)"
  shows "\<exists>p2. push v h p1 = Inr (head, p2) \<and>
           free_nodes p1 = head \<and> free_nodes p2 = free_nodes p \<and>
           value_of head p2 = Inr v \<and> next_of head p2 = Inr h \<and>
           (\<forall>x. x \<noteq> head \<longrightarrow> node x p2 = node x p) \<and>
           vector_size (pool p1) = vector_size (pool p) \<and> capacity p1 = capacity p \<and>
           vector_size (pool p2) = vector_size (pool p) \<and> capacity p2 = capacity p"
proof -
  let ?ns = "elems (pool p)"
  from assms have h: "head \<noteq> 0" "head \<le> length ?ns"
    and p1: "p1 = p\<lparr>pool := (pool p)\<lparr>elems := ?ns
               [head - 1 := (?ns ! (head - 1))\<lparr>node_next := free_nodes p\<rparr>]\<rparr>,
            free_nodes := head\<rparr>"
    by (auto dest: pop_InrD)
  have f: "free_nodes p1 \<noteq> 0" "free_nodes p1 \<le> length (elems (pool p1))"
    using h by (simp_all add: p1)
  from push_reuse_effect [OF f, of v h]
  obtain p2 where p2: "push v h p1 = Inr (free_nodes p1, p2)"
    "next_of (free_nodes p1) p1 = Inr (free_nodes p2)"
    "value_of (free_nodes p1) p2 = Inr v" "next_of (free_nodes p1) p2 = Inr h"
    "\<forall>x. x \<noteq> free_nodes p1 \<longrightarrow> node x p2 = node x p1"
    "vector_size (pool p2) = vector_size (pool p1)" "capacity p2 = capacity p1"
    by blast
  have fh: "free_nodes p1 = head" by (simp add: p1)
  have "next_of head p1 = Inr (free_nodes p)" using h by (simp add: p1 next_of_ok)
  with p2(2) fh have fr: "free_nodes p2 = free_nodes p" by simp
  have oth1: "\<forall>x. x \<noteq> head \<longrightarrow> node x p1 = node x p"
    using h by (simp add: p1 node_update_other)
  have sz: "vector_size (pool p1) = vector_size (pool p)" "capacity p1 = capacity p"
    by (simp_all add: p1 vector_size_def capacity_def vector_capacity_def)
  from p2 fh fr oth1 sz show ?thesis by (intro exI [of _ p2]) simp
qed

lemma reserve_capacity: "capacity (reserve n p) = max n (capacity p)"
  by (simp add: reserve_def capacity_def vector_capacity_def vector_reserve_def)

section \<open>The loops\<close>

lemma free_stack_loop_chain:
  "st (it_pool nxt) = Some p \<Longrightarrow> path (elems (pool p)) (it_head nxt) xs 0 \<Longrightarrow>
   free_stack_loop st r head cur nxt =
     Some (Inr (if xs = [] then cur else cur\<lparr>it_head := last xs\<rparr>))"
proof (induction xs arbitrary: cur nxt)
  case Nil
  then show ?case
    by (subst free_stack_loop.simps)
      (simp add: it_neq_def it_eq_def end_it_def make_iterator_def end_stack_def)
next
  case (Cons x xs)
  from Cons.prems have x: "it_head nxt = x" "x \<noteq> 0" "x \<le> length (elems (pool p))"
    and rest: "path (elems (pool p)) (node_next (elems (pool p) ! (x - 1))) xs 0"
    by simp_all
  let ?nxt' = "nxt\<lparr>it_head := node_next (elems (pool p) ! (x - 1))\<rparr>"
  have incr: "it_post_incr st nxt = Inr (nxt, ?nxt')"
    using Cons.prems(1) x by (simp add: it_post_incr_def it_incr_def next_of_ok)
  have neq: "it_neq nxt (end_it r head)"
    using x by (simp add: it_neq_def it_eq_def end_it_def make_iterator_def end_stack_def)
  have "free_stack_loop st r head cur nxt =
        free_stack_loop st r head (it_assign cur nxt) ?nxt'"
    by (subst free_stack_loop.simps) (simp add: neq incr)
  also have "\<dots> = Some (Inr (if xs = [] then it_assign cur nxt
                               else (it_assign cur nxt)\<lparr>it_head := last xs\<rparr>))"
    using Cons.prems(1) rest by (intro Cons.IH) simp_all
  finally show ?case using x by (simp add: it_assign_def)
qed

lemma free_stack_chain:
  assumes "chain p head xs" and "xs \<noteq> []"
  shows "free_stack head p =
     Some (Inr (end_stack,
          p\<lparr>pool := (pool p)\<lparr>elems := (elems (pool p))
               [last xs - 1 := (elems (pool p) ! (last xs - 1))\<lparr>node_next := free_nodes p\<rparr>]\<rparr>,
            free_nodes := head\<rparr>))"
proof -
  from assms obtain ys where xs: "xs = head # ys" and h: "head \<noteq> 0" "head \<le> length (elems (pool p))"
    and rest: "path (elems (pool p)) (node_next (elems (pool p) ! (head - 1))) ys 0"
    by (cases xs) (auto simp: chain_def end_stack_def)
  let ?st = "\<lambda>_::unit. Some p"
  let ?cur = "begin_it () head"
  let ?nxt = "?cur\<lparr>it_head := node_next (elems (pool p) ! (head - 1))\<rparr>"
  have incr: "it_incr ?st ?cur = Inr ?nxt"
    using h by (simp add: it_incr_def next_of_ok begin_it_def make_iterator_def)
  have loop: "free_stack_loop ?st () head ?cur ?nxt =
      Some (Inr (if ys = [] then ?cur else ?cur\<lparr>it_head := last ys\<rparr>))"
    using rest by (intro free_stack_loop_chain) simp_all
  have last: "ptr_to_stack (if ys = [] then ?cur else ?cur\<lparr>it_head := last ys\<rparr>) = last xs"
    by (simp add: xs ptr_to_stack_def begin_it_def make_iterator_def)
  have "last xs \<in> set xs" using assms(2) by simp
  with assms(1) have l: "last xs \<noteq> 0" "last xs \<le> length (elems (pool p))"
    using path_in_range [of "elems (pool p)" head xs 0 "last xs"] by (auto simp: chain_def end_stack_def)
  show ?thesis
    using h by (simp add: free_stack_def empty_stack_def end_stack_def Let_def incr loop last
        set_next_ok [OF l] del: One_nat_def cong: if_cong)
qed

lemma free_stack_returns_sentinel:
  "free_stack head p = Some (Inr (r, p')) \<Longrightarrow> r = end_stack"
  by (auto simp: free_stack_def empty_stack_def Let_def
      split: if_splits sum.splits option.splits)

lemma free_stack_capacity:
  "free_stack head p = Some (Inr (r, p')) \<Longrightarrow> capacity p' = capacity p"
  by (auto simp: free_stack_def Let_def capacity_def [of "_\<lparr>free_nodes := _\<rparr>"]
      dest!: set_next_capacity split: if_splits sum.splits option.splits)
    (simp add: capacity_def)

text \<open>
  A set of nodes that \<open>next\<close> never leaves: once the loop of \<open>free_stack\<close> is inside, it
  does not end.
\<close>

lemma free_stack_loop_closed:
  assumes closed: "\<forall>x\<in>S. x \<noteq> 0 \<and> x \<le> length (elems (pool p)) \<and>
      node_next (elems (pool p) ! (x - 1)) \<in> S"
    and res: "free_stack_loop st0 r0 head0 cur0 nxt0 = Some y0"
  shows "st0 = (\<lambda>_. Some p) \<longrightarrow> it_head nxt0 \<notin> S"
proof (rule free_stack_loop.raw_induct
    [where P = "\<lambda>st r head cur nxt y. st = (\<lambda>_. Some p) \<longrightarrow> it_head nxt \<notin> S", OF _ res])
  fix loop :: "('b \<Rightarrow> 'a stack_pool option) \<Rightarrow> 'b \<Rightarrow> nat \<Rightarrow> 'b iterator \<Rightarrow> 'b iterator
      \<Rightarrow> (error + 'b iterator) option"
  fix st r head cur nxt y
  assume IH: "\<And>st r head cur nxt y. loop st r head cur nxt = Some y \<Longrightarrow>
      st = (\<lambda>_. Some p) \<longrightarrow> it_head nxt \<notin> S"
  assume eq: "(if it_neq nxt (end_it r head)
      then case it_post_incr st nxt of Inl e \<Rightarrow> Some (Inl e)
           | Inr (tmp, next_node') \<Rightarrow> loop st r head (it_assign cur tmp) next_node'
      else Some (Inr cur)) = Some y"
  show "st = (\<lambda>_. Some p) \<longrightarrow> it_head nxt \<notin> S"
  proof (intro impI notI)
    assume st: "st = (\<lambda>_. Some p)" and mem: "it_head nxt \<in> S"
    from closed mem have x: "it_head nxt \<noteq> 0" "it_head nxt \<le> length (elems (pool p))"
      and nx: "node_next (elems (pool p) ! (it_head nxt - 1)) \<in> S"
      by auto
    let ?nxt' = "nxt\<lparr>it_head := node_next (elems (pool p) ! (it_head nxt - 1))\<rparr>"
    have neq: "it_neq nxt (end_it r head)"
      using x by (simp add: it_neq_def it_eq_def end_it_def make_iterator_def end_stack_def)
    have incr: "it_post_incr st nxt = Inr (nxt, ?nxt')"
      using x st by (simp add: it_post_incr_def it_incr_def next_of_ok)
    from eq have "loop st r head (it_assign cur nxt) ?nxt' = Some y"
      by (simp add: neq incr)
    from IH [OF this] st nx show False by simp
  qed
qed

lemma free_stack_loop_closed_None:
  assumes "\<forall>x\<in>S. x \<noteq> 0 \<and> x \<le> length (elems (pool p)) \<and>
      node_next (elems (pool p) ! (x - 1)) \<in> S"
    and "it_head nxt \<in> S"
  shows "free_stack_loop (\<lambda>_. Some p) r head cur nxt = None"
proof (cases "free_stack_loop (\<lambda>_. Some p) r head cur nxt")
  case None
  then show ?thesis .
next
  case (Some y)
  from free_stack_loop_closed [OF assms(1) Some] assms(2) show ?thesis by simp
qed



section \<open>Chains under the operations\<close>

lemma push_free_list:
  assumes "chain p (free_nodes p) fs"
  shows "\<exists>h' p'. push v h p = Inr (h', p') \<and> chain p' (free_nodes p') (tl fs)"
proof (cases fs)
  case Nil
  with assms have "free_nodes p = 0" by (simp add: chain_def end_stack_def)
  then show ?thesis using Nil by (simp add: push_fresh chain_def)
next
  case (Cons f fs')
  with assms have f: "free_nodes p = f" "f \<noteq> 0" "f \<le> length (elems (pool p))"
    and rest: "path (elems (pool p)) (node_next (elems (pool p) ! (f - 1))) fs' 0"
    by (simp_all add: chain_def end_stack_def)
  from assms Cons have "f \<notin> set fs'" by (auto dest: chain_distinct)
  with rest f have "path ((elems (pool p))[f - 1 := \<lparr>node_value = v, node_next = h\<rparr>])
      (node_next (elems (pool p) ! (f - 1))) fs' 0"
    by (intro path_update_other)
  then show ?thesis using f Cons by (simp add: push_reuse chain_def end_stack_def)
qed



lemma pushes_reuse_path:
  "path (elems (pool p)) (free_nodes p) xs t \<Longrightarrow> distinct xs \<Longrightarrow> length args = length xs \<Longrightarrow>
   \<exists>p'. pushes args p = Inr (xs, p') \<and> free_nodes p' = t \<and>
     vector_size (pool p') = vector_size (pool p) \<and> capacity p' = capacity p"
proof (induction xs arbitrary: p args)
  case Nil
  then show ?case by simp
next
  case (Cons x xs)
  let ?ns = "elems (pool p)"
  from Cons.prems(3) obtain v h as where args: "args = (v, h) # as" and len: "length as = length xs"
    by (cases args) auto
  from Cons.prems(1) have x: "free_nodes p = x" "x \<noteq> 0" "x \<le> length ?ns"
    and rest: "path ?ns (node_next (?ns ! (x - 1))) xs t"
    by simp_all
  from Cons.prems(2) have nx: "x \<notin> set xs" and d: "distinct xs" by simp_all
  let ?p1 = "p\<lparr>pool := (pool p)\<lparr>elems := ?ns[x - 1 := \<lparr>node_value = v, node_next = h\<rparr>]\<rparr>,
               free_nodes := node_next (?ns ! (x - 1))\<rparr>"
  have push: "push v h p = Inr (x, ?p1)"
    using x push_reuse [of p v h] by simp
  have "path (?ns[x - 1 := \<lparr>node_value = v, node_next = h\<rparr>]) (node_next (?ns ! (x - 1))) xs t"
    using rest nx x(2) by (rule path_update_other)
  then have "path (elems (pool ?p1)) (free_nodes ?p1) xs t" by simp
  from Cons.IH [OF this d len]
  obtain p' where p': "pushes as ?p1 = Inr (xs, p')" "free_nodes p' = t"
    "vector_size (pool p') = vector_size (pool ?p1)" "capacity p' = capacity ?p1"
    by blast
  have "vector_size (pool ?p1) = vector_size (pool p)" "capacity ?p1 = capacity p"
    by (simp_all add: vector_size_def capacity_def vector_capacity_def)
  with p' push show ?case by (simp add: args)
qed

lemma pop_free_list:
  assumes "chain p (free_nodes p) fs" and "head \<noteq> 0" and "head \<le> length (elems (pool p))"
    and "head \<notin> set fs"
  shows "\<exists>s p'. pop head p = Inr (s, p') \<and> chain p' (free_nodes p') (head # fs)"
proof -
  let ?ns = "elems (pool p)"
  have "path (?ns[head - 1 := (?ns ! (head - 1))\<lparr>node_next := free_nodes p\<rparr>]) (free_nodes p) fs 0"
    using assms(1,4,2) unfolding chain_def end_stack_def by (rule path_update_other)
  then show ?thesis using assms(2,3) by (simp add: pop_ok chain_def end_stack_def)
qed

lemma free_stack_free_list:
  assumes "chain p (free_nodes p) fs" and "chain p head xs" and "set xs \<inter> set fs = {}"
  shows "\<exists>p'. free_stack head p = Some (Inr (end_stack, p')) \<and> chain p' (free_nodes p') (xs @ fs)"
proof (cases "xs = []")
  case True
  with assms(2) have "head = end_stack" by (simp add: chain_def)
  with assms(1) True show ?thesis by (simp add: free_stack_def empty_stack_def)
next
  case False
  let ?ns = "elems (pool p)"
  let ?ns' = "?ns[last xs - 1 := (?ns ! (last xs - 1))\<lparr>node_next := free_nodes p\<rparr>]"
  from assms(2) False have fs: "free_stack head p =
      Some (Inr (end_stack, p\<lparr>pool := (pool p)\<lparr>elems := ?ns'\<rparr>, free_nodes := head\<rparr>))"
    by (rule free_stack_chain)
  from assms(2) False have l: "last xs \<noteq> 0"
    using chain_in_range [of p head xs "last xs"] by auto
  from assms(3) False have nl: "last xs \<notin> set fs" by (meson disjoint_iff last_in_set)
  have 1: "path ?ns' head xs (free_nodes p)"
    using assms(2) False by (intro path_retarget_last) (simp_all add: chain_def end_stack_def)
  have 2: "path ?ns' (free_nodes p) fs 0"
    using assms(1) nl l unfolding chain_def end_stack_def by (rule path_update_other)
  from 1 2 have "path ?ns' head (xs @ fs) 0" unfolding path_append by blast
  with fs show ?thesis by (simp add: chain_def end_stack_def)
qed

lemma exec_op_capacity:
  "exec_op c p = Some (Inr p') \<Longrightarrow> capacity p \<le> capacity p'"
proof (cases c)
  case New_stack
  then show "exec_op c p = Some (Inr p') \<Longrightarrow> ?thesis" by auto
next
  case (Reserve n)
  then show "exec_op c p = Some (Inr p') \<Longrightarrow> ?thesis" by (auto simp: reserve_capacity)
next
  case (Push v h)
  then show "exec_op c p = Some (Inr p') \<Longrightarrow> ?thesis"
    by (auto split: sum.splits dest: push_capacity)
next
  case (Pop h)
  then show "exec_op c p = Some (Inr p') \<Longrightarrow> ?thesis"
    by (auto split: sum.splits dest: pop_capacity)
next
  case (Free_stack h)
  then show "exec_op c p = Some (Inr p') \<Longrightarrow> ?thesis"
    by (auto split: sum.splits option.splits dest: free_stack_capacity)
qed

lemma run_capacities_sorted: "sorted (map capacity (p # run cs p))"
proof (induction cs arbitrary: p)
  case Nil
  then show ?case by simp
next
  case (Cons c cs)
  show ?case
  proof (cases "\<exists>p'. exec_op c p = Some (Inr p')")
    case True
    then obtain p' where p': "exec_op c p = Some (Inr p')" by blast
    then have "capacity p \<le> capacity p'" by (rule exec_op_capacity)
    moreover have "sorted (map capacity (p' # run cs p'))" by (rule Cons.IH)
    ultimately show ?thesis using p' by (simp del: sorted_wrt.simps add: sorted2)
  next
    case False
    then have "run (c # cs) p = []" by (auto split: option.splits sum.splits)
    then show ?thesis by simp
  qed
qed

section \<open>The example pools\<close>

lemma ex_stack_reached: "push_all [10, 20, 30] (new_stack (new_pool :: int stack_pool)) new_pool = Inr (3, ex_stack)"
  by (simp add: ex_stack_def end_stack_def vector_size_def new_pool_def new_stack_def vector_empty_def push_def push_impl_def
     next_of_def node_def vector_at_def set_next_def set_value_def vector_set_def
     vector_push_back_def Let_def)

lemma ex_popped_reached: "pop 3 ex_stack = Inr (2, ex_popped)"
  by (simp add: ex_stack_def ex_popped_def pop_def next_of_def node_def vector_at_def set_next_def vector_set_def)

lemma ex_chain: "chain ex_popped 2 [2, 1]"
  by (simp add: chain_def ex_popped_def end_stack_def)

lemma ex_free_list: "chain ex_popped (free_nodes ex_popped) [3]"
  by (simp add: chain_def ex_popped_def end_stack_def)

lemma ex_freed_reached: "free_stack 2 ex_popped = Some (Inr (0, ex_freed))"
  using free_stack_chain [OF ex_chain]
  by (simp add: ex_popped_def ex_freed_def end_stack_def)

lemma ex_cyclic_reached: "set_next 1 3 ex_stack = Inr ex_cyclic"
  by (simp add: set_next_def node_def vector_at_def vector_set_def ex_stack_def ex_cyclic_def)

lemma ex_out_of_store: "free_stack 7 ex_stack = Some (Inl OutOfBounds)"
  by (simp add: free_stack_def empty_stack_def end_stack_def Let_def it_incr_def begin_it_def
      make_iterator_def next_of_def node_def vector_at_def ex_stack_def)

section \<open>Push order\<close>



section \<open>Allocation from the free list\<close>

text \<open>
  C2. \<open>push\<close> takes its node from the free list first. When the free list is not empty (its
  head is a node of the store), \<open>push\<close> returns the head of the free list, makes the
  successor of that node the new head of the free list, and writes the value and the head
  of the stack into that node; no other node changes, and the store neither grows nor
  changes capacity. When the free list is empty, \<open>push\<close> appends one node, holding the
  value and the head, and returns its handle; the free list stays empty, the nodes that
  were there do not change, and the capacity stays when there was room. Hence a \<open>push\<close>
  right after a \<open>pop\<close> that returned normally gives back the handle that the \<open>pop\<close>
  freed, whatever value and head it is called with: the node is off the free list again,
  which is the free list before the \<open>pop\<close>, it holds the new value and head, every other
  node is as before the \<open>pop\<close>, and so are the size and the capacity.
\<close>

theorem push_allocates_from_free_list_first:
  "(free_nodes p \<noteq> end_stack \<and> free_nodes p \<le> vector_size (pool p) \<longrightarrow>
      (\<exists>p'. push v h p = Inr (free_nodes p, p') \<and>
         next_of (free_nodes p) p = Inr (free_nodes p') \<and>
         value_of (free_nodes p) p' = Inr v \<and> next_of (free_nodes p) p' = Inr h \<and>
         (\<forall>x. x \<noteq> free_nodes p \<longrightarrow> node x p' = node x p) \<and>
         vector_size (pool p') = vector_size (pool p) \<and> capacity p' = capacity p)) \<and>
   (free_nodes p = end_stack \<longrightarrow>
      (\<exists>p'. push v h p = Inr (vector_size (pool p) + 1, p') \<and>
         free_nodes p' = end_stack \<and>
         value_of (vector_size (pool p) + 1) p' = Inr v \<and>
         next_of (vector_size (pool p) + 1) p' = Inr h \<and>
         (\<forall>x. x \<noteq> vector_size (pool p) + 1 \<longrightarrow> node x p' = node x p) \<and>
         vector_size (pool p') = vector_size (pool p) + 1 \<and>
         capacity p \<le> capacity p' \<and>
         (vector_size (pool p) < capacity p \<longrightarrow> capacity p' = capacity p))) \<and>
   (pop head p = Inr (s, p1) \<longrightarrow>
      (\<exists>p2. push v h p1 = Inr (head, p2) \<and>
         free_nodes p1 = head \<and> free_nodes p2 = free_nodes p \<and>
         value_of head p2 = Inr v \<and> next_of head p2 = Inr h \<and>
         (\<forall>x. x \<noteq> head \<longrightarrow> node x p2 = node x p) \<and>
         vector_size (pool p1) = vector_size (pool p) \<and> capacity p1 = capacity p \<and>
         vector_size (pool p2) = vector_size (pool p) \<and> capacity p2 = capacity p))"
proof (intro conjI impI)
  assume "free_nodes p \<noteq> end_stack \<and> free_nodes p \<le> vector_size (pool p)"
  then have "free_nodes p \<noteq> 0" "free_nodes p \<le> length (elems (pool p))"
    by (simp_all add: end_stack_def vector_size_def)
  then show "\<exists>p'. push v h p = Inr (free_nodes p, p') \<and>
         next_of (free_nodes p) p = Inr (free_nodes p') \<and>
         value_of (free_nodes p) p' = Inr v \<and> next_of (free_nodes p) p' = Inr h \<and>
         (\<forall>x. x \<noteq> free_nodes p \<longrightarrow> node x p' = node x p) \<and>
         vector_size (pool p') = vector_size (pool p) \<and> capacity p' = capacity p"
    by (rule push_reuse_effect)
next
  assume "free_nodes p = end_stack"
  then have "free_nodes p = 0" by (simp add: end_stack_def)
  then show "\<exists>p'. push v h p = Inr (vector_size (pool p) + 1, p') \<and>
         free_nodes p' = end_stack \<and>
         value_of (vector_size (pool p) + 1) p' = Inr v \<and>
         next_of (vector_size (pool p) + 1) p' = Inr h \<and>
         (\<forall>x. x \<noteq> vector_size (pool p) + 1 \<longrightarrow> node x p' = node x p) \<and>
         vector_size (pool p') = vector_size (pool p) + 1 \<and>
         capacity p \<le> capacity p' \<and>
         (vector_size (pool p) < capacity p \<longrightarrow> capacity p' = capacity p)"
    by (rule push_fresh_effect)
next
  assume "pop head p = Inr (s, p1)"
  then show "\<exists>p2. push v h p1 = Inr (head, p2) \<and>
         free_nodes p1 = head \<and> free_nodes p2 = free_nodes p \<and>
         value_of head p2 = Inr v \<and> next_of head p2 = Inr h \<and>
         (\<forall>x. x \<noteq> head \<longrightarrow> node x p2 = node x p) \<and>
         vector_size (pool p1) = vector_size (pool p) \<and> capacity p1 = capacity p \<and>
         vector_size (pool p2) = vector_size (pool p) \<and> capacity p2 = capacity p"
    by (rule pop_push_effect)
qed

theorem push_allocates_from_free_list_first_witness:
  "(free_nodes ex_popped \<noteq> end_stack \<and> free_nodes ex_popped \<le> vector_size (pool ex_popped)) \<and>
   (\<exists>p'. push 99 2 ex_popped = Inr (3, p') \<and> free_nodes p' = 0 \<and>
      value_of 3 p' = Inr 99 \<and> next_of 3 p' = Inr 2 \<and>
      node 1 p' = node 1 ex_popped \<and> node 2 p' = node 2 ex_popped \<and>
      vector_size (pool p') = 3 \<and> capacity p' = 4) \<and>
   free_nodes ex_stack = end_stack \<and>
   (\<exists>p'. push 99 3 ex_stack = Inr (4, p') \<and> free_nodes p' = end_stack \<and>
      value_of 4 p' = Inr 99 \<and> next_of 4 p' = Inr 3 \<and>
      node 1 p' = node 1 ex_stack \<and> node 3 p' = node 3 ex_stack \<and>
      vector_size (pool p') = 4 \<and> capacity p' = 4) \<and>
   pop 3 ex_stack = Inr (2, ex_popped) \<and>
   (\<exists>p2. push 99 2 ex_popped = Inr (3, p2) \<and> free_nodes p2 = free_nodes ex_stack \<and>
      value_of 3 p2 = Inr 99 \<and> next_of 3 p2 = Inr 2 \<and>
      node 1 p2 = node 1 ex_stack \<and> node 2 p2 = node 2 ex_stack \<and>
      vector_size (pool p2) = 3 \<and> capacity p2 = 4)"
proof -
  have a: "free_nodes ex_popped \<noteq> end_stack \<and> free_nodes ex_popped \<le> vector_size (pool ex_popped)"
    by (simp add: ex_popped_def end_stack_def vector_size_def)
  have b: "free_nodes ex_stack = end_stack"
    by (simp add: ex_stack_def end_stack_def)
  have c: "pop 3 ex_stack = Inr (2, ex_popped)" by (rule ex_popped_reached)
  have d: "free_nodes ex_popped = 3" "next_of 3 ex_popped = Inr 0"
    "vector_size (pool ex_popped) = 3" "capacity ex_popped = 4"
    "vector_size (pool ex_stack) = 3" "capacity ex_stack = 4"
    by (simp_all add: ex_popped_def ex_stack_def next_of_def node_def vector_at_def
        vector_size_def capacity_def vector_capacity_def)
  note t1 = push_allocates_from_free_list_first [where p = ex_popped and v = 99 and h = 2,
      THEN conjunct1, rule_format, OF a]
  note t2 = push_allocates_from_free_list_first [where p = ex_stack and v = 99 and h = 3,
      THEN conjunct2, THEN conjunct1, rule_format, OF b]
  note t3 = push_allocates_from_free_list_first [where p = ex_stack and v = 99 and h = 2
      and head = 3 and s = 2 and ?p1.0 = ex_popped,
      THEN conjunct2, THEN conjunct2, rule_format, OF c]
  from t1 obtain p' where p': "push 99 2 ex_popped = Inr (free_nodes ex_popped, p')"
    "next_of (free_nodes ex_popped) ex_popped = Inr (free_nodes p')"
    "value_of (free_nodes ex_popped) p' = Inr 99" "next_of (free_nodes ex_popped) p' = Inr 2"
    "\<forall>x. x \<noteq> free_nodes ex_popped \<longrightarrow> node x p' = node x ex_popped"
    "vector_size (pool p') = vector_size (pool ex_popped)" "capacity p' = capacity ex_popped"
    by (elim exE conjE)
  from p'(5) have o1: "node 1 p' = node 1 ex_popped" "node 2 p' = node 2 ex_popped"
    by (simp_all add: d(1))
  from p'(2) have f1: "free_nodes p' = 0" by (simp add: d(1,2))
  have 1: "\<exists>p'. push 99 2 ex_popped = Inr (3, p') \<and> free_nodes p' = 0 \<and>
      value_of 3 p' = Inr 99 \<and> next_of 3 p' = Inr 2 \<and>
      node 1 p' = node 1 ex_popped \<and> node 2 p' = node 2 ex_popped \<and>
      vector_size (pool p') = 3 \<and> capacity p' = 4"
    using p'(1,3,4,6,7) o1 f1 by (intro exI [of _ p']) (simp add: d)
  from t2 obtain q where q: "push 99 3 ex_stack = Inr (vector_size (pool ex_stack) + 1, q)"
    "free_nodes q = end_stack"
    "value_of (vector_size (pool ex_stack) + 1) q = Inr 99"
    "next_of (vector_size (pool ex_stack) + 1) q = Inr 3"
    "\<forall>x. x \<noteq> vector_size (pool ex_stack) + 1 \<longrightarrow> node x q = node x ex_stack"
    "vector_size (pool q) = vector_size (pool ex_stack) + 1"
    "capacity ex_stack \<le> capacity q"
    "vector_size (pool ex_stack) < capacity ex_stack \<longrightarrow> capacity q = capacity ex_stack"
    by (elim exE conjE)
  from q(5) have o2: "node 1 q = node 1 ex_stack" "node 3 q = node 3 ex_stack"
    by (simp_all add: d(5))
  from q(8) have c2: "capacity q = 4" by (simp add: d(5,6))
  have 2: "\<exists>p'. push 99 3 ex_stack = Inr (4, p') \<and> free_nodes p' = end_stack \<and>
      value_of 4 p' = Inr 99 \<and> next_of 4 p' = Inr 3 \<and>
      node 1 p' = node 1 ex_stack \<and> node 3 p' = node 3 ex_stack \<and>
      vector_size (pool p') = 4 \<and> capacity p' = 4"
    using q(1,2,3,4,6) o2 c2 by (intro exI [of _ q]) (simp add: d(5))
  from t3 obtain p2 where p2: "push 99 2 ex_popped = Inr (3, p2)"
    "free_nodes ex_popped = 3" "free_nodes p2 = free_nodes ex_stack"
    "value_of 3 p2 = Inr 99" "next_of 3 p2 = Inr 2"
    "\<forall>x. x \<noteq> 3 \<longrightarrow> node x p2 = node x ex_stack"
    "vector_size (pool ex_popped) = vector_size (pool ex_stack)"
    "capacity ex_popped = capacity ex_stack"
    "vector_size (pool p2) = vector_size (pool ex_stack)" "capacity p2 = capacity ex_stack"
    by (elim exE conjE)
  from p2(6) have o3: "node 1 p2 = node 1 ex_stack" "node 2 p2 = node 2 ex_stack"
    by simp_all
  have 3: "\<exists>p2. push 99 2 ex_popped = Inr (3, p2) \<and>
      free_nodes p2 = free_nodes ex_stack \<and>
      value_of 3 p2 = Inr 99 \<and> next_of 3 p2 = Inr 2 \<and>
      node 1 p2 = node 1 ex_stack \<and> node 2 p2 = node 2 ex_stack \<and>
      vector_size (pool p2) = 3 \<and> capacity p2 = 4"
    using p2(1,3,4,5,9,10) o3 by (intro exI [of _ p2]) (simp add: d(5,6))
  show ?thesis
    by (rule conjI [OF a conjI [OF 1 conjI [OF b conjI [OF 2 conjI [OF c 3]]]]])
qed

section \<open>Releasing a stack\<close>

text \<open>
  C3. \<open>free_stack\<close> does not return on every handle: on a stack that runs into a cycle its
  loop never ends (see the counterexample below), and on a handle outside the store it
  reads out of bounds. Whenever it returns, it returns the sentinel. On the sentinel it
  returns at once and leaves the pool as it is. On the head of a non-empty chain that ends
  at the sentinel it returns normally; afterwards the \<open>next\<close> field of the last node of the
  chain holds the previous head of the free list, the head of the free list is the head of
  the chain, and following \<open>next\<close> from there visits the nodes of the chain in their
  original order before it arrives at the previous head of the free list.
\<close>

theorem free_stack_splices_chain:
  "(free_stack head p = Some (Inr (r, q)) \<longrightarrow> r = end_stack) \<and>
   free_stack end_stack p = Some (Inr (end_stack, p)) \<and>
   (chain p head xs \<and> head \<noteq> end_stack \<longrightarrow>
      (\<exists>p'. free_stack head p = Some (Inr (end_stack, p')) \<and>
         next_of (last xs) p' = Inr (free_nodes p) \<and> free_nodes p' = head \<and>
         path (elems (pool p')) (free_nodes p') xs (free_nodes p)))"
proof (intro conjI impI)
  assume "free_stack head p = Some (Inr (r, q))"
  then show "r = end_stack" by (rule free_stack_returns_sentinel)
next
  show "free_stack end_stack p = Some (Inr (end_stack, p))"
    by (simp add: free_stack_def empty_stack_def)
next
  assume a: "chain p head xs \<and> head \<noteq> end_stack"
  then have ne: "xs \<noteq> []" by (auto simp: chain_def)
  let ?ns = "elems (pool p)"
  let ?p' = "p\<lparr>pool := (pool p)\<lparr>elems := ?ns
               [last xs - 1 := (?ns ! (last xs - 1))\<lparr>node_next := free_nodes p\<rparr>]\<rparr>,
            free_nodes := head\<rparr>"
  from a ne have fs: "free_stack head p = Some (Inr (end_stack, ?p'))"
    by (intro free_stack_chain) simp_all
  from a ne have l: "last xs \<noteq> 0" "last xs \<le> length ?ns"
    using chain_in_range [of p head xs "last xs"] by auto
  have nx: "next_of (last xs) ?p' = Inr (free_nodes p)"
    using l by (simp add: next_of_ok)
  have "path (?ns[last xs - 1 := (?ns ! (last xs - 1))\<lparr>node_next := free_nodes p\<rparr>])
          head xs (free_nodes p)"
    using a ne by (intro path_retarget_last) (simp_all add: chain_def end_stack_def)
  then have "path (elems (pool ?p')) (free_nodes ?p') xs (free_nodes p)" by simp
  with fs nx show "\<exists>p'. free_stack head p = Some (Inr (end_stack, p')) \<and>
         next_of (last xs) p' = Inr (free_nodes p) \<and> free_nodes p' = head \<and>
         path (elems (pool p')) (free_nodes p') xs (free_nodes p)"
    by (intro exI [of _ ?p']) simp
qed

theorem free_stack_splices_chain_witness:
  "free_stack 2 ex_popped = Some (Inr (0, ex_freed)) \<and> (0::nat) = end_stack \<and>
   (chain ex_popped 2 [2, 1] \<and> (2::nat) \<noteq> end_stack) \<and>
   (\<exists>p'. free_stack 2 ex_popped = Some (Inr (end_stack, p')) \<and>
      next_of (last [2, 1]) p' = Inr (free_nodes ex_popped) \<and> free_nodes p' = 2 \<and>
      path (elems (pool p')) (free_nodes p') [2, 1] (free_nodes ex_popped))"
proof -
  have a: "free_stack 2 ex_popped = Some (Inr (0, ex_freed))" by (rule ex_freed_reached)
  have b: "chain ex_popped 2 [2, 1] \<and> (2::nat) \<noteq> end_stack"
    using ex_chain by (simp add: end_stack_def)
  from a b free_stack_splices_chain [where head = 2 and p = ex_popped and r = 0
      and q = ex_freed and xs = "[2, 1]"]
  show ?thesis by blast
qed

text \<open>
  The pool \<open>ex_cyclic\<close> is reached from \<open>ex_stack\<close> by one write through the public
  reference \<open>next(1)\<close>. Its stack with head \<open>3\<close> is the cycle \<open>3, 2, 1, 3, \<dots>\<close>, and
  \<open>free_stack(3)\<close> never returns.
\<close>

theorem free_stack_cyclic_counterexample:
  "free_stack 3 ex_cyclic = None"
proof -
  have c: "\<forall>x\<in>{1, 2, 3}. x \<noteq> 0 \<and> x \<le> length (elems (pool ex_cyclic)) \<and>
      node_next (elems (pool ex_cyclic) ! (x - 1)) \<in> {1, 2, 3}"
    by (simp add: ex_cyclic_def)
  have i: "it_incr (\<lambda>_::unit. Some ex_cyclic) (begin_it () 3) = Inr (make_iterator () 2)"
    by (simp add: it_incr_def begin_it_def make_iterator_def next_of_def node_def vector_at_def
        ex_cyclic_def)
  have "free_stack_loop (\<lambda>_. Some ex_cyclic) () 3 (begin_it () 3) (make_iterator () 2) = None"
    using c by (rule free_stack_loop_closed_None) (simp add: make_iterator_def)
  then show ?thesis
    by (simp add: free_stack_def empty_stack_def end_stack_def Let_def i)
qed

section \<open>Popping\<close>

text \<open>
  C4. For a head other than the sentinel whose \<open>next\<close> field can be read, \<open>pop\<close> returns
  the successor the head had before the call, stores the previous head of the free list in
  the \<open>next\<close> field of the old head and makes the old head the head of the free list. The
  value of that node, every other node, the size of the store and its capacity stay as
  they were.
\<close>

theorem pop_moves_head_to_free_list:
  assumes "head \<noteq> end_stack" and "next_of head p = Inr s"
  shows "\<exists>p'. pop head p = Inr (s, p') \<and>
           next_of head p' = Inr (free_nodes p) \<and> free_nodes p' = head \<and>
           value_of head p' = value_of head p \<and>
           (\<forall>x. x \<noteq> head \<longrightarrow> node x p' = node x p) \<and>
           vector_size (pool p') = vector_size (pool p) \<and> capacity p' = capacity p"
proof -
  from assms(2) have h: "head \<noteq> 0" "head \<le> length (elems (pool p))"
    and s: "s = node_next (elems (pool p) ! (head - 1))"
    by (auto dest: next_of_InrD)
  let ?p' = "p\<lparr>pool := (pool p)\<lparr>elems := (elems (pool p))
               [head - 1 := (elems (pool p) ! (head - 1))\<lparr>node_next := free_nodes p\<rparr>]\<rparr>,
            free_nodes := head\<rparr>"
  have "pop head p = Inr (s, ?p')" using h s by (simp add: pop_ok)
  moreover have "next_of head ?p' = Inr (free_nodes p)"
    using h by (simp add: next_of_ok)
  moreover have "value_of head ?p' = value_of head p"
    using h by (simp add: value_of_ok)
  moreover have "\<forall>x. x \<noteq> head \<longrightarrow> node x ?p' = node x p"
    using h by (simp add: node_update_other)
  moreover have "vector_size (pool ?p') = vector_size (pool p)" "capacity ?p' = capacity p"
    by (simp_all add: vector_size_def capacity_def vector_capacity_def)
  ultimately show ?thesis by (intro exI [of _ ?p']) simp
qed

theorem pop_moves_head_to_free_list_witness:
  "((3::nat) \<noteq> end_stack \<and> next_of 3 ex_stack = Inr 2) \<and>
   (\<exists>p'. pop 3 ex_stack = Inr (2, p') \<and>
      next_of 3 p' = Inr 0 \<and> free_nodes p' = 3 \<and> value_of 3 p' = Inr 30 \<and>
      node 1 p' = node 1 ex_stack \<and> node 2 p' = node 2 ex_stack \<and>
      node 4 p' = node 4 ex_stack \<and>
      vector_size (pool p') = 3 \<and> capacity p' = 4)"
proof -
  have a: "(3::nat) \<noteq> end_stack" by (simp add: end_stack_def)
  have b: "next_of 3 ex_stack = Inr 2"
    by (simp add: ex_stack_def next_of_def node_def vector_at_def)
  from pop_moves_head_to_free_list [OF a b]
  obtain p' where p': "pop 3 ex_stack = Inr (2, p')"
    "next_of 3 p' = Inr (free_nodes ex_stack)" "free_nodes p' = 3"
    "value_of 3 p' = value_of 3 ex_stack"
    "\<forall>x. x \<noteq> 3 \<longrightarrow> node x p' = node x ex_stack"
    "vector_size (pool p') = vector_size (pool ex_stack)" "capacity p' = capacity ex_stack"
    by blast
  from p'(5) have c: "node 1 p' = node 1 ex_stack" "node 2 p' = node 2 ex_stack"
    "node 4 p' = node 4 ex_stack"
    by simp_all
  have d: "free_nodes ex_stack = 0" "value_of 3 ex_stack = Inr 30"
    "vector_size (pool ex_stack) = 3" "capacity ex_stack = 4"
    by (simp_all add: ex_stack_def value_of_def node_def vector_at_def vector_size_def
        capacity_def vector_capacity_def)
  from a b p' c d show ?thesis by (intro conjI exI [of _ p']) simp_all
qed

section \<open>Reuse after release\<close>

text \<open>
  C5. After \<open>free_stack\<close> on the head of a chain of \<open>k\<close> nodes that ends at the sentinel,
  the next \<open>k\<close> calls of \<open>push\<close>, with any values and any heads, all return normally,
  and they return the nodes of the freed chain, in the order of the chain. After any
  number \<open>j \<le> k\<close> of these calls the capacity and the size of the store are what they
  were before \<open>free_stack\<close>.
\<close>

theorem free_stack_nodes_are_reused:
  assumes "chain p head xs" and "length args \<le> length xs"
  shows "\<exists>p1 p2. free_stack head p = Some (Inr (end_stack, p1)) \<and>
           pushes args p1 = Inr (take (length args) xs, p2) \<and>
           capacity p1 = capacity p \<and> capacity p2 = capacity p \<and>
           vector_size (pool p2) = vector_size (pool p)"
proof (cases "xs = []")
  case True
  with assms have "head = end_stack" "args = []" by (simp_all add: chain_def)
  then show ?thesis by (simp add: free_stack_def empty_stack_def)
next
  case False
  let ?ns = "elems (pool p)"
  let ?p1 = "p\<lparr>pool := (pool p)\<lparr>elems := ?ns
               [last xs - 1 := (?ns ! (last xs - 1))\<lparr>node_next := free_nodes p\<rparr>]\<rparr>,
            free_nodes := head\<rparr>"
  let ?ys = "take (length args) xs"
  from assms(1) False have fs: "free_stack head p = Some (Inr (end_stack, ?p1))"
    by (rule free_stack_chain)
  have "path (?ns[last xs - 1 := (?ns ! (last xs - 1))\<lparr>node_next := free_nodes p\<rparr>])
          head xs (free_nodes p)"
    using assms(1) False by (intro path_retarget_last) (simp_all add: chain_def end_stack_def)
  then have "path (elems (pool ?p1)) (free_nodes ?p1) (?ys @ drop (length args) xs) (free_nodes p)"
    by simp
  then obtain m where m: "path (elems (pool ?p1)) (free_nodes ?p1) ?ys m"
    unfolding path_append by blast
  from assms(1) have "distinct xs" by (rule chain_distinct)
  then have d: "distinct ?ys" by simp
  have len: "length args = length ?ys" using assms(2) by simp
  from pushes_reuse_path [OF m d len]
  obtain p2 where p2: "pushes args ?p1 = Inr (?ys, p2)"
    "vector_size (pool p2) = vector_size (pool ?p1)" "capacity p2 = capacity ?p1"
    by blast
  have "vector_size (pool ?p1) = vector_size (pool p)" "capacity ?p1 = capacity p"
    by (simp_all add: vector_size_def capacity_def vector_capacity_def)
  with fs p2 show ?thesis by (intro exI [of _ ?p1] exI [of _ p2]) simp
qed

theorem free_stack_nodes_are_reused_witness:
  "(chain ex_popped 2 [2, 1] \<and> length [(99::int, 0::nat), (98, 2)] \<le> length [2::nat, 1]) \<and>
   (\<exists>p1 p2. free_stack 2 ex_popped = Some (Inr (end_stack, p1)) \<and>
      pushes [(99, 0), (98, 2)] p1 = Inr ([2, 1], p2) \<and>
      capacity p1 = capacity ex_popped \<and> capacity p2 = capacity ex_popped \<and>
      vector_size (pool p2) = vector_size (pool ex_popped))"
proof -
  have a: "chain ex_popped 2 [2, 1]" by (rule ex_chain)
  have b: "length [(99::int, 0::nat), (98, 2)] \<le> length [2::nat, 1]" by simp
  from free_stack_nodes_are_reused [OF a b] a b show ?thesis by simp
qed

section \<open>The free list\<close>

text \<open>
  C6. The free list of a fresh pool, from either constructor, is the empty chain. When the free list is a chain
  \<open>fs\<close> that ends at the sentinel, it visits no node twice, and it is such a chain again
  after every operation: \<open>reserve\<close> leaves it as it is; \<open>push\<close> returns normally and leaves
  the chain without its first node; \<open>pop\<close> on a node of the store that is not in the free
  list returns normally and puts that node in front; \<open>free_stack\<close> on a chain that ends
  at the sentinel and shares no node with the free list returns normally and puts that
  chain in front.
\<close>

theorem free_list_is_a_chain:
  "chain (new_pool :: 'a stack_pool) (free_nodes (new_pool :: 'a stack_pool)) [] \<and>
   chain (new_pool_reserved m :: 'a stack_pool) (free_nodes (new_pool_reserved m :: 'a stack_pool)) [] \<and>
   (chain p (free_nodes p) fs \<longrightarrow>
      distinct fs \<and>
      chain (reserve n p) (free_nodes (reserve n p)) fs \<and>
      (\<exists>h' p'. push (v :: 'a :: default) h p = Inr (h', p') \<and> chain p' (free_nodes p') (tl fs)) \<and>
      (head \<noteq> end_stack \<and> head \<le> vector_size (pool p) \<and> head \<notin> set fs \<longrightarrow>
         (\<exists>s p'. pop head p = Inr (s, p') \<and> chain p' (free_nodes p') (head # fs))) \<and>
      (chain p head xs \<and> set xs \<inter> set fs = {} \<longrightarrow>
         (\<exists>p'. free_stack head p = Some (Inr (end_stack, p')) \<and>
            chain p' (free_nodes p') (xs @ fs))))"
proof (intro conjI impI)
  show "chain (new_pool :: 'a stack_pool) (free_nodes (new_pool :: 'a stack_pool)) []"
    by (simp add: chain_def new_pool_def)
next
  show "chain (new_pool_reserved m :: 'a stack_pool)
      (free_nodes (new_pool_reserved m :: 'a stack_pool)) []"
    by (simp add: chain_def new_pool_reserved_def new_pool_def reserve_def)
next
  assume "chain p (free_nodes p) fs"
  then show "distinct fs" by (rule chain_distinct)
next
  assume "chain p (free_nodes p) fs"
  then show "chain (reserve n p) (free_nodes (reserve n p)) fs"
    by (simp add: chain_def reserve_def vector_reserve_def)
next
  assume "chain p (free_nodes p) fs"
  then show "\<exists>h' p'. push v h p = Inr (h', p') \<and> chain p' (free_nodes p') (tl fs)"
    by (rule push_free_list)
next
  assume "chain p (free_nodes p) fs"
    and "head \<noteq> end_stack \<and> head \<le> vector_size (pool p) \<and> head \<notin> set fs"
  then show "\<exists>s p'. pop head p = Inr (s, p') \<and> chain p' (free_nodes p') (head # fs)"
    by (intro pop_free_list) (simp_all add: end_stack_def vector_size_def)
next
  assume "chain p (free_nodes p) fs" and "chain p head xs \<and> set xs \<inter> set fs = {}"
  then show "\<exists>p'. free_stack head p = Some (Inr (end_stack, p')) \<and>
            chain p' (free_nodes p') (xs @ fs)"
    by (intro free_stack_free_list) simp_all
qed

theorem free_list_is_a_chain_witness:
  "chain ex_popped (free_nodes ex_popped) [3] \<and>
   ((2::nat) \<noteq> end_stack \<and> 2 \<le> vector_size (pool ex_popped) \<and> 2 \<notin> set [3::nat]) \<and>
   (chain ex_popped 2 [2, 1] \<and> set [2, 1] \<inter> set [3::nat] = {}) \<and>
   distinct [3::nat] \<and>
   chain (reserve 10 ex_popped) (free_nodes (reserve 10 ex_popped)) [3] \<and>
   (\<exists>h' p'. push 99 2 ex_popped = Inr (h', p') \<and> chain p' (free_nodes p') (tl [3])) \<and>
   (\<exists>s p'. pop 2 ex_popped = Inr (s, p') \<and> chain p' (free_nodes p') [2, 3]) \<and>
   (\<exists>p'. free_stack 2 ex_popped = Some (Inr (end_stack, p')) \<and>
      chain p' (free_nodes p') ([2, 1] @ [3]))"
proof -
  have a: "chain ex_popped (free_nodes ex_popped) [3]" by (rule ex_free_list)
  have b: "(2::nat) \<noteq> end_stack \<and> 2 \<le> vector_size (pool ex_popped) \<and> 2 \<notin> set [3::nat]"
    by (simp add: end_stack_def vector_size_def ex_popped_def)
  have c: "chain ex_popped 2 [2, 1] \<and> set [2, 1] \<inter> set [3::nat] = {}"
    using ex_chain by simp
  from a b c free_list_is_a_chain [where p = ex_popped and fs = "[3]" and n = 10 and v = 99
      and h = 2 and head = 2 and xs = "[2, 1]"]
  show ?thesis by blast
qed

section \<open>Capacity\<close>

text \<open>
  C7. In every run of operations (\<open>new_stack\<close>, \<open>reserve\<close>, \<open>push\<close>, \<open>pop\<close>,
  \<open>free_stack\<close>, with any arguments) the capacities of the pool before the run and after
  each operation form a non-decreasing sequence. \<open>reserve(n)\<close> never lowers the capacity,
  for any \<open>n\<close>: the capacity after it is the larger of \<open>n\<close> and the capacity before.
\<close>

theorem capacity_never_decreases:
  "sorted (map capacity (p # run cs p)) \<and>
   capacity p \<le> capacity (reserve n p) \<and>
   capacity (reserve n p) = max n (capacity p)"
  by (simp add: run_capacities_sorted reserve_capacity del: sorted_wrt.simps list.map)

theorem capacity_never_decreases_witness:
  "sorted (map capacity (ex_stack #
      run [Push 40 3, Reserve 2, Push 50 4, Pop 5, Free_stack 4, Reserve 9, New_stack] ex_stack)) \<and>
   capacity ex_stack \<le> capacity (reserve 2 ex_stack) \<and>
   capacity (reserve 2 ex_stack) = max 2 (capacity ex_stack)"
  using capacity_never_decreases [of ex_stack
      "[Push 40 3, Reserve 2, Push 50 4, Pop 5, Free_stack 4, Reserve 9, New_stack]" 2]
  by blast

section \<open>Cursor equality\<close>

text \<open>
  C8. Two cursors are equal exactly when their handles are equal, whatever pools they are
  bound to. \<open>end(x)\<close> is the cursor at the sentinel for every handle \<open>x\<close>: the end cursors
  of all stacks of a pool are the same cursor, and end cursors of any pools are equal.
\<close>

theorem cursor_equality_is_handle_equality:
  "it_eq a b = (it_head a = it_head b) \<and>
   it_neq a b = (it_head a \<noteq> it_head b) \<and>
   it_eq (make_iterator r x) (make_iterator r' y) = (x = y) \<and>
   it_head (end_it r x) = end_stack \<and>
   end_it r x = end_it r y \<and>
   it_eq (end_it r x) (end_it r' y)"
  by (simp add: it_eq_def it_neq_def make_iterator_def end_it_def)

theorem cursor_equality_is_handle_equality_witness:
  "it_eq (make_iterator (0::nat) 2) (make_iterator 1 2) = ((2::nat) = 2) \<and>
   it_eq (make_iterator (0::nat) 2) (make_iterator 0 3) = ((2::nat) = 3) \<and>
   end_it (0::nat) 2 = end_it 0 3 \<and>
   it_eq (end_it (0::nat) 2) (end_it 1 3)"
  using cursor_equality_is_handle_equality [of "make_iterator (0::nat) 2" "make_iterator 1 2" 0 2 1 2]
    cursor_equality_is_handle_equality [of "make_iterator (0::nat) 2" "make_iterator 1 2" 0 2 0 3]
    cursor_equality_is_handle_equality [of "make_iterator (0::nat) 2" "make_iterator 1 2" 0 2 1 3]
  by blast

section \<open>What release leaves alone\<close>

text \<open>
  C9. On the head of a non-empty chain that ends at the sentinel, \<open>free_stack\<close> writes the
  \<open>next\<close> field of the last node of the chain and the head of the free list, and nothing
  else: the value of every node, the \<open>next\<close> field of every other node, the size of the
  store and its capacity are the same after the call.
\<close>

theorem free_stack_frame:
  assumes "chain p head xs" and "head \<noteq> end_stack"
  shows "\<exists>p'. free_stack head p = Some (Inr (end_stack, p')) \<and>
           next_of (last xs) p' = Inr (free_nodes p) \<and> free_nodes p' = head \<and>
           (\<forall>x. value_of x p' = value_of x p) \<and>
           (\<forall>x. x \<noteq> last xs \<longrightarrow> next_of x p' = next_of x p) \<and>
           vector_size (pool p') = vector_size (pool p) \<and> capacity p' = capacity p"
proof -
  from assms have ne: "xs \<noteq> []" by (auto simp: chain_def)
  let ?ns = "elems (pool p)"
  let ?p' = "p\<lparr>pool := (pool p)\<lparr>elems := ?ns
               [last xs - 1 := (?ns ! (last xs - 1))\<lparr>node_next := free_nodes p\<rparr>]\<rparr>,
            free_nodes := head\<rparr>"
  from assms ne have fs: "free_stack head p = Some (Inr (end_stack, ?p'))"
    by (intro free_stack_chain)
  from assms ne have l: "last xs \<noteq> 0" "last xs \<le> length ?ns"
    using chain_in_range [of p head xs "last xs"] by auto
  have nx: "next_of (last xs) ?p' = Inr (free_nodes p)"
    using l by (simp add: next_of_ok)
  have val: "value_of x ?p' = value_of x p" for x
    using l by (cases "x - 1 = last xs - 1")
      (auto simp: value_of_def node_def vector_at_def)
  have oth: "next_of x ?p' = next_of x p" if "x \<noteq> last xs" for x
    using that l by (simp add: next_of_def node_update_other)
  have "vector_size (pool ?p') = vector_size (pool p)" "capacity ?p' = capacity p"
    by (simp_all add: vector_size_def capacity_def vector_capacity_def)
  with fs nx val oth show ?thesis by (intro exI [of _ ?p']) simp
qed

theorem free_stack_frame_witness:
  "(chain ex_popped 2 [2, 1] \<and> (2::nat) \<noteq> end_stack) \<and>
   (\<exists>p'. free_stack 2 ex_popped = Some (Inr (end_stack, p')) \<and>
      next_of 1 p' = Inr 3 \<and> free_nodes p' = 2 \<and>
      value_of 1 p' = Inr 10 \<and> value_of 2 p' = Inr 20 \<and> value_of 3 p' = Inr 30 \<and>
      next_of 2 p' = Inr 1 \<and> next_of 3 p' = Inr 0 \<and>
      vector_size (pool p') = 3 \<and> capacity p' = 4)"
proof -
  have a: "chain ex_popped 2 [2, 1]" by (rule ex_chain)
  have b: "(2::nat) \<noteq> end_stack" by (simp add: end_stack_def)
  from free_stack_frame [OF a b]
  obtain p' where p': "free_stack 2 ex_popped = Some (Inr (end_stack, p'))"
    "next_of (last [2, 1]) p' = Inr (free_nodes ex_popped)" "free_nodes p' = 2"
    "\<forall>x. value_of x p' = value_of x ex_popped"
    "\<forall>x. x \<noteq> last [2, 1] \<longrightarrow> next_of x p' = next_of x ex_popped"
    "vector_size (pool p') = vector_size (pool ex_popped)" "capacity p' = capacity ex_popped"
    by blast
  from p'(5) have c: "next_of 2 p' = next_of 2 ex_popped" "next_of 3 p' = next_of 3 ex_popped"
    by simp_all
  from p'(2) have l: "next_of 1 p' = Inr (free_nodes ex_popped)" by simp
  have d: "free_nodes ex_popped = 3" "value_of 1 ex_popped = Inr 10"
    "value_of 2 ex_popped = Inr 20" "value_of 3 ex_popped = Inr 30"
    "next_of 2 ex_popped = Inr 1" "next_of 3 ex_popped = Inr 0"
    "vector_size (pool ex_popped) = 3" "capacity ex_popped = 4"
    by (simp_all add: ex_popped_def value_of_def next_of_def node_def vector_at_def
        vector_size_def capacity_def vector_capacity_def)
  from a b p' c l d show ?thesis by (intro conjI exI [of _ p']) simp_all
qed

section \<open>Cursor assignment\<close>

text \<open>
  C10. The copy-assignment \<open>a = b\<close> of cursors copies the handle of \<open>b\<close> and keeps the
  pool pointer of \<open>a\<close>: afterwards \<open>a\<close> is at the handle of \<open>b\<close>, and dereferencing and
  advancing \<open>a\<close> read the pool that \<open>a\<close> was bound to before, at that handle.
\<close>

theorem cursor_assignment_keeps_pool:
  "it_head (it_assign a b) = it_head b \<and>
   it_pool (it_assign a b) = it_pool a \<and>
   it_assign a b = make_iterator (it_pool a) (it_head b) \<and>
   it_deref st (it_assign a b) =
     (case st (it_pool a) of None \<Rightarrow> Inl DanglingPool | Some p \<Rightarrow> value_of (it_head b) p) \<and>
   it_incr st (it_assign a b) =
     (case st (it_pool a) of None \<Rightarrow> Inl DanglingPool
      | Some p \<Rightarrow>
          (case next_of (it_head b) p of Inl e \<Rightarrow> Inl e
           | Inr h \<Rightarrow> Inr (make_iterator (it_pool a) h)))"
proof -
  have eq: "it_assign a b = make_iterator (it_pool a) (it_head b)"
    by (cases a) (simp add: it_assign_def make_iterator_def)
  have "it_deref st (make_iterator (it_pool a) (it_head b)) =
     (case st (it_pool a) of None \<Rightarrow> Inl DanglingPool | Some p \<Rightarrow> value_of (it_head b) p)"
    by (simp add: it_deref_def make_iterator_def split: option.splits)
  moreover have "it_incr st (make_iterator (it_pool a) (it_head b)) =
     (case st (it_pool a) of None \<Rightarrow> Inl DanglingPool
      | Some p \<Rightarrow>
          (case next_of (it_head b) p of Inl e \<Rightarrow> Inl e
           | Inr h \<Rightarrow> Inr (make_iterator (it_pool a) h)))"
    by (simp add: it_incr_def make_iterator_def split: option.splits sum.splits)
  ultimately show ?thesis
    unfolding eq by (simp add: make_iterator_def)
qed

theorem cursor_assignment_keeps_pool_witness:
  "it_deref [(0::nat) \<mapsto> ex_stack, 1 \<mapsto> ex_other] (make_iterator 1 2) = Inr 8 \<and>
   it_deref [(0::nat) \<mapsto> ex_stack, 1 \<mapsto> ex_other]
      (it_assign (make_iterator 0 3) (make_iterator 1 2)) = Inr 20 \<and>
   it_incr [(0::nat) \<mapsto> ex_stack, 1 \<mapsto> ex_other]
      (it_assign (make_iterator 0 3) (make_iterator 1 2)) = Inr (make_iterator 0 1)"
  using cursor_assignment_keeps_pool [of "make_iterator (0::nat) 3" "make_iterator 1 2"
      "[(0::nat) \<mapsto> ex_stack, 1 \<mapsto> ex_other]"]
  by (simp add: make_iterator_def it_assign_def it_deref_def value_of_def next_of_def node_def
      vector_at_def ex_stack_def ex_other_def)

end
